theory Spec2Isabelle
  imports Complex_Main "HOL-Library.Word" "HOL-Library.Multiset"
begin

section \<open>WCDB builtin configurations: the basic pragmas and the checkpoint scheduler\<close>

text \<open>
  A shallow embedding of \<^verbatim>\<open>src/objc/source/core/BuiltinConfig.cpp\<close>: the configuration
  \<^verbatim>\<open>BuiltinConfig::basic\<close> (lines 32-152) and the configuration
  \<^verbatim>\<open>BuiltinConfig::checkpoint\<close> (lines 218-251) with its commit hook, its timed queue
  and its background thread.
\<close>

subsection \<open>Statements, errors and the handle\<close>

datatype pragma = JournalMode | LockingMode | Synchronous | Fullfsync | WalCheckpoint

datatype pragma_value = Text string | Boolean bool

text \<open>
  \<^verbatim>\<open>StatementPragma().pragma(p)\<close> reads a pragma, \<^verbatim>\<open>StatementPragma().pragma(p, v)\<close>
  sets it.
\<close>

datatype statement_pragma = Pragma pragma | PragmaTo pragma pragma_value

datatype error = ErrorOK | ErrorCode int

datatype call =
    Prepare statement_pragma
  | Step statement_pragma
  | Finalize statement_pragma
  | Exec statement_pragma

text \<open>
  The classes \<^verbatim>\<open>Handle\<close> and \<^verbatim>\<open>HandleStatement\<close> are declared in headers that are
  not among the sources. Their behaviour is a parameter of the model: the record holds
  what the handle answers (whether a prepare, a step or an exec fails, the text a stepped
  statement yields, the error it reports), each answer a function of everything done to
  the handle so far, and \<open>calls\<close> records every call made on the handle, in order.
\<close>

record handle =
  path :: string
  readonly :: bool
  prepare_fails :: "call list \<Rightarrow> statement_pragma \<Rightarrow> bool"
  step_fails :: "call list \<Rightarrow> statement_pragma \<Rightarrow> bool"
  exec_fails :: "call list \<Rightarrow> statement_pragma \<Rightarrow> bool"
  column_text :: "call list \<Rightarrow> statement_pragma \<Rightarrow> string"
  handle_error :: "call list \<Rightarrow> error"
  statement_error :: "call list \<Rightarrow> error"
  calls :: "call list"

definition isReadonly :: "handle \<Rightarrow> bool" where
  "isReadonly h = readonly h"

definition getError :: "handle \<Rightarrow> error" where
  "getError h = handle_error h (calls h)"

text \<open>\<^verbatim>\<open>handle->prepare(s)\<close>: a null pointer (\<open>None\<close>) when the prepare fails.\<close>

definition prepare :: "statement_pragma \<Rightarrow> handle \<Rightarrow> statement_pragma option \<times> handle" where
  "prepare s h =
     (if prepare_fails h (calls h) s then None else Some s,
      h\<lparr>calls := calls h @ [Prepare s]\<rparr>)"

definition step :: "statement_pragma \<Rightarrow> handle \<Rightarrow> handle" where
  "step s h = h\<lparr>calls := calls h @ [Step s]\<rparr>"

definition isOK :: "statement_pragma \<Rightarrow> handle \<Rightarrow> bool" where
  "isOK s h = (\<not> step_fails h (calls h) s)"

definition statement_getError :: "statement_pragma \<Rightarrow> handle \<Rightarrow> error" where
  "statement_getError s h = statement_error h (calls h)"

definition getValue_Text :: "statement_pragma \<Rightarrow> handle \<Rightarrow> string" where
  "getValue_Text s h = column_text h (calls h) s"

definition finalize :: "statement_pragma \<Rightarrow> handle \<Rightarrow> handle" where
  "finalize s h = h\<lparr>calls := calls h @ [Finalize s]\<rparr>"

text \<open>\<^verbatim>\<open>handle->exec(s)\<close>: the returned flag is \<open>True\<close> when the statement ran.\<close>

definition exec :: "statement_pragma \<Rightarrow> handle \<Rightarrow> bool \<times> handle" where
  "exec s h = (\<not> exec_fails h (calls h) s, h\<lparr>calls := calls h @ [Exec s]\<rparr>)"

subsection \<open>The C library's \<^verbatim>\<open>strcasecmp\<close>\<close>

text \<open>
  \<^verbatim>\<open>tolower\<close> in the C locale, on the character's code. \<^verbatim>\<open>c_str()\<close> hands over the
  bytes up to the first NUL, and \<^verbatim>\<open>strcasecmp\<close> returns the difference of the first two
  lowered bytes that differ, the terminator counting as 0.
\<close>

definition tolower_c :: "char \<Rightarrow> int" where
  "tolower_c c =
     (if 65 \<le> (of_char c :: int) \<and> (of_char c :: int) \<le> 90 then of_char c + 32
      else of_char c)"

definition c_str :: "string \<Rightarrow> string" where
  "c_str s = takeWhile (\<lambda>c. c \<noteq> CHR 0x00) s"

fun strcasecmp :: "string \<Rightarrow> string \<Rightarrow> int" where
  "strcasecmp [] [] = 0"
| "strcasecmp [] (b # bs) = 0 - tolower_c b"
| "strcasecmp (a # as) [] = tolower_c a"
| "strcasecmp (a # as) (b # bs) =
     (if tolower_c a = tolower_c b then strcasecmp as bs
      else tolower_c a - tolower_c b)"

subsection \<open>\<^verbatim>\<open>BuiltinConfig::basic\<close>\<close>

text \<open>
  What one run of a configuration leaves behind: the returned flag, the caller's
  \<^verbatim>\<open>Error &error\<close>, the handle, and the messages handed to \<^verbatim>\<open>Error::Abort\<close>
  (whose body is not among the sources: the model records the call and goes on to the
  \<^verbatim>\<open>return false\<close> that follows it in the source).
\<close>

record outcome =
  returned :: bool
  error_out :: error
  handle_out :: handle
  aborted :: "string list"

definition s_getJournalMode :: statement_pragma where
  "s_getJournalMode = Pragma JournalMode"

definition s_getLockingMode :: statement_pragma where
  "s_getLockingMode = Pragma LockingMode"

definition s_setLockingModeNormal :: statement_pragma where
  "s_setLockingModeNormal = PragmaTo LockingMode (Text ''NORMAL'')"

definition s_setSynchronousNormal :: statement_pragma where
  "s_setSynchronousNormal = PragmaTo Synchronous (Text ''NORMAL'')"

definition s_setJournalModeWAL :: statement_pragma where
  "s_setJournalModeWAL = PragmaTo JournalMode (Text ''WAL'')"

definition s_setFullFsync :: statement_pragma where
  "s_setFullFsync = PragmaTo Fullfsync (Boolean True)"

text \<open>Lines 36-63: the branch of a read-only handle.\<close>

definition basic_readonly :: "handle \<Rightarrow> error \<Rightarrow> outcome" where
  "basic_readonly h0 error =
     (case prepare s_getJournalMode h0 of
        (None, h1) \<Rightarrow>
          \<lparr>returned = False, error_out = getError h1, handle_out = h1, aborted = []\<rparr>
      | (Some handleStatement, h1) \<Rightarrow>
          (let h2 = step handleStatement h1 in
           if \<not> isOK handleStatement h2 then
             \<lparr>returned = False, error_out = statement_getError handleStatement h2,
              handle_out = h2, aborted = []\<rparr>
           else
             (let journalMode = getValue_Text handleStatement h2;
                  h3 = finalize handleStatement h2
              in if strcasecmp (c_str journalMode) ''WAL'' = 0 then
                   \<lparr>returned = False, error_out = error, handle_out = h3,
                    aborted = [''It is not possible to open read-only WAL databases.'']\<rparr>
                 else
                   \<lparr>returned = True, error_out = error, handle_out = h3, aborted = []\<rparr>)))"

text \<open>
  The four blocks of a writable handle. Each returns \<open>Some e\<close> when the source stores
  \<open>e\<close> in \<^verbatim>\<open>error\<close> and returns false, and \<open>None\<close> when control falls through to the
  next block.
\<close>

text \<open>Lines 65-94.\<close>

definition lockingMode_block :: "handle \<Rightarrow> error option \<times> handle" where
  "lockingMode_block h0 =
     (case prepare s_getLockingMode h0 of
        (None, h1) \<Rightarrow> (Some (getError h1), h1)
      | (Some handleStatement, h1) \<Rightarrow>
          (let h2 = step handleStatement h1 in
           if \<not> isOK handleStatement h2 then (Some (statement_getError handleStatement h2), h2)
           else
             (let lockingMode = getValue_Text handleStatement h2;
                  h3 = finalize handleStatement h2
              in if strcasecmp (c_str lockingMode) ''NORMAL'' \<noteq> 0 then
                   (case exec s_setLockingModeNormal h3 of
                      (False, h4) \<Rightarrow> (Some (getError h4), h4)
                    | (True, h4) \<Rightarrow> (None, h4))
                 else (None, h3))))"

text \<open>Lines 96-105.\<close>

definition synchronous_block :: "handle \<Rightarrow> error option \<times> handle" where
  "synchronous_block h0 =
     (case exec s_setSynchronousNormal h0 of
        (False, h1) \<Rightarrow> (Some (getError h1), h1)
      | (True, h1) \<Rightarrow> (None, h1))"

text \<open>Lines 107-136.\<close>

definition journalMode_block :: "handle \<Rightarrow> error option \<times> handle" where
  "journalMode_block h0 =
     (case prepare s_getJournalMode h0 of
        (None, h1) \<Rightarrow> (Some (getError h1), h1)
      | (Some handleStatement, h1) \<Rightarrow>
          (let h2 = step handleStatement h1 in
           if \<not> isOK handleStatement h2 then (Some (statement_getError handleStatement h2), h2)
           else
             (let journalMode = getValue_Text handleStatement h2;
                  h3 = finalize handleStatement h2
              in if strcasecmp (c_str journalMode) ''WAL'' \<noteq> 0 then
                   (case exec s_setJournalModeWAL h3 of
                      (False, h4) \<Rightarrow> (Some (getError h4), h4)
                    | (True, h4) \<Rightarrow> (None, h4))
                 else (None, h3))))"

text \<open>Lines 138-147.\<close>

definition fullfsync_block :: "handle \<Rightarrow> error option \<times> handle" where
  "fullfsync_block h0 =
     (case exec s_setFullFsync h0 of
        (False, h1) \<Rightarrow> (Some (getError h1), h1)
      | (True, h1) \<Rightarrow> (None, h1))"

definition failed :: "error \<Rightarrow> handle \<Rightarrow> outcome" where
  "failed e h = \<lparr>returned = False, error_out = e, handle_out = h, aborted = []\<rparr>"

text \<open>Lines 34-151: the whole lambda; \<^verbatim>\<open>error.reset()\<close> is \<open>ErrorOK\<close>.\<close>

definition basic :: "handle \<Rightarrow> error \<Rightarrow> outcome" where
  "basic h0 error =
     (if isReadonly h0 then basic_readonly h0 error
      else
        (case lockingMode_block h0 of
           (Some e, h1) \<Rightarrow> failed e h1
         | (None, h1) \<Rightarrow>
        (case synchronous_block h1 of
           (Some e, h2) \<Rightarrow> failed e h2
         | (None, h2) \<Rightarrow>
        (case journalMode_block h2 of
           (Some e, h3) \<Rightarrow> failed e h3
         | (None, h3) \<Rightarrow>
        (case fullfsync_block h3 of
           (Some e, h4) \<Rightarrow> failed e h4
         | (None, h4) \<Rightarrow>
             \<lparr>returned = True, error_out = ErrorOK, handle_out = h4, aborted = []\<rparr>)))))"

text \<open>The statements a run has executed on the handle (the writes), read off its calls.\<close>

fun executed :: "call list \<Rightarrow> statement_pragma list" where
  "executed [] = []"
| "executed (Exec s # cs) = s # executed cs"
| "executed (c # cs) = executed cs"

subsection \<open>The timed queue\<close>

text \<open>Time, in the unit of the queue's delay (seconds in the source).\<close>

type_synonym time = rat

text \<open>
  Modelled from the spec: the class \<^verbatim>\<open>TimedQueue\<close> of \<^verbatim>\<open>WCDB/timed_queue.hpp\<close> is not
  among the sources. Section 3 gives its state: entries \<open>{key, expiryTime}\<close> and the
  fixed delay given at construction. The entries are kept as a list, so that a second
  entry for a key would show.
\<close>

record 'k timed_queue =
  delay :: time
  entries :: "('k \<times> time) list"

text \<open>
  Modelled from the spec: the constructor of the absent \<^verbatim>\<open>TimedQueue\<close>; a new queue has
  the given delay and no entry.
\<close>

definition TimedQueue :: "time \<Rightarrow> 'k timed_queue" where
  "TimedQueue d = \<lparr>delay = d, entries = []\<rparr>"

text \<open>
  Modelled from the spec: \<^verbatim>\<open>TimedQueue::reQueue\<close> is absent; section 4.1 says
  "inserts key with expiry = now + delay if absent; if present, resets its expiry to
  now + delay". The clock's reading \<open>now\<close> is an argument.
\<close>

definition reQueue :: "time \<Rightarrow> 'k \<Rightarrow> 'k timed_queue \<Rightarrow> 'k timed_queue" where
  "reQueue now key q =
     (if key \<in> fst ` set (entries q) then
        q\<lparr>entries := map (\<lambda>(k, e). if k = key then (k, now + delay q) else (k, e)) (entries q)\<rparr>
      else q\<lparr>entries := entries q @ [(key, now + delay q)]\<rparr>)"

text \<open>
  Modelled from the spec: the entry with the minimum expiry (section 3, invariant 3),
  found by the linear scan that section 3 allows; among equal expiries the first in the
  list.
\<close>

fun earliest :: "('k \<times> time) list \<Rightarrow> ('k \<times> time) option" where
  "earliest [] = None"
| "earliest (x # xs) =
     (case earliest xs of
        None \<Rightarrow> Some x
      | Some y \<Rightarrow> if snd x \<le> snd y then Some x else Some y)"

text \<open>
  Modelled from the spec: the bookkeeping half of the absent
  \<^verbatim>\<open>TimedQueue::waitUntilExpired\<close> (section 4.1): once the entry with the minimum
  expiry has reached its deadline, that entry is removed and handed over. \<open>None\<close> is
  the call still blocked at time \<open>now\<close>: the queue is empty, or the earliest deadline lies
  ahead.
\<close>

definition popExpired :: "time \<Rightarrow> 'k timed_queue \<Rightarrow> (('k \<times> time) \<times> 'k timed_queue) option" where
  "popExpired now q =
     (case earliest (entries q) of
        None \<Rightarrow> None
      | Some (key, expiry) \<Rightarrow>
          if expiry \<le> now then Some ((key, expiry), q\<lparr>entries := remove1 (key, expiry) (entries q)\<rparr>)
          else None)"

text \<open>
  Modelled from the spec: the absent \<^verbatim>\<open>TimedQueue::waitUntilExpired(onExpired)\<close>
  (section 4.1): the popped key is given to the callback, outside the queue's lock; the
  callback works on a state \<open>'w\<close> of its own.
\<close>

definition waitUntilExpired ::
  "time \<Rightarrow> ('k \<Rightarrow> 'w \<Rightarrow> 'w) \<Rightarrow> 'k timed_queue \<Rightarrow> 'w \<Rightarrow> ('k timed_queue \<times> 'w) option" where
  "waitUntilExpired now onExpired q w =
     (case popExpired now q of
        None \<Rightarrow> None
      | Some ((key, expiry), q') \<Rightarrow> Some (q', onExpired key w))"

subsection \<open>Producers and the consumer, interleaved\<close>

text \<open>
  The queue's lock makes every \<^verbatim>\<open>reQueue\<close> and every pop atomic, so a history of the
  queue is a list of operations, each with the clock's reading when it took effect:
  a producer's \<open>ReQueue t key\<close>, or the consumer's \<open>WaitUntilExpired t\<close>, one look of the
  blocked call at the queue at time \<open>t\<close>. A look that finds nothing due changes nothing
  (the call stays blocked); a look that finds the earliest entry due pops it, runs the
  callback, and notes the key, its expiry and the time in \<open>delivered\<close>.
\<close>

datatype 'k op = ReQueue time 'k | WaitUntilExpired time

fun op_time :: "'k op \<Rightarrow> time" where
  "op_time (ReQueue t k) = t"
| "op_time (WaitUntilExpired t) = t"

record ('k, 'w) sim =
  queue :: "'k timed_queue"
  world :: 'w
  delivered :: "('k \<times> time \<times> time) list"

definition start :: "time \<Rightarrow> 'w \<Rightarrow> ('k, 'w) sim" where
  "start d w = \<lparr>queue = TimedQueue d, world = w, delivered = []\<rparr>"

fun apply_op :: "('k \<Rightarrow> 'w \<Rightarrow> 'w) \<Rightarrow> 'k op \<Rightarrow> ('k, 'w) sim \<Rightarrow> ('k, 'w) sim" where
  "apply_op onExpired (ReQueue t key) s = s\<lparr>queue := reQueue t key (queue s)\<rparr>"
| "apply_op onExpired (WaitUntilExpired t) s =
     (case popExpired t (queue s) of
        None \<Rightarrow> s
      | Some ((key, expiry), q') \<Rightarrow>
          \<lparr>queue = q', world = onExpired key (world s),
           delivered = delivered s @ [(key, expiry, t)]\<rparr>)"

fun run :: "('k \<Rightarrow> 'w \<Rightarrow> 'w) \<Rightarrow> 'k op list \<Rightarrow> ('k, 'w) sim \<Rightarrow> ('k, 'w) sim" where
  "run onExpired [] s = s"
| "run onExpired (x # xs) s = run onExpired xs (apply_op onExpired x s)"

text \<open>The time of the last \<open>ReQueue\<close> of a key in a history, if there is one.\<close>

fun last_requeue :: "'k \<Rightarrow> 'k op list \<Rightarrow> time option" where
  "last_requeue key [] = None"
| "last_requeue key (ReQueue t k # xs) =
     (case last_requeue key xs of
        Some t' \<Rightarrow> Some t'
      | None \<Rightarrow> if k = key then Some t else None)"
| "last_requeue key (WaitUntilExpired t # xs) = last_requeue key xs"

subsection \<open>\<^verbatim>\<open>BuiltinConfig::checkpoint\<close>: the commit hook and the checkpoint thread\<close>

datatype core_type = CoreTypeNone | CoreTypeDatabase

text \<open>
  What the callback of the checkpoint thread works on: the databases that exist, the
  result each checkpoint would report, and the statements executed so far, with the
  path of their database. The error a failing execution reports may depend on what was
  executed before.
\<close>

record world =
  cores :: "string \<Rightarrow> core_type"
  exec_error :: "(string \<times> statement_pragma) list \<Rightarrow> string \<Rightarrow> error"
  issued :: "(string \<times> statement_pragma) list"

record database =
  database_path :: string
  database_type :: core_type

text \<open>
  Modelled from the spec: the class \<^verbatim>\<open>Database\<close> is not among the sources. Section 6,
  "Database lookup-by-identifier": the constructor with the existing-only flag resolves
  a path only if a database for it already exists, creates none, and reports a
  distinguishable "none" otherwise. Without the flag it creates the database.
\<close>

definition Database :: "string \<Rightarrow> bool \<Rightarrow> world \<Rightarrow> database \<times> world" where
  "Database p existingOnly w =
     (if cores w p \<noteq> CoreTypeNone then
        (\<lparr>database_path = p, database_type = cores w p\<rparr>, w)
      else if existingOnly then (\<lparr>database_path = p, database_type = CoreTypeNone\<rparr>, w)
      else (\<lparr>database_path = p, database_type = CoreTypeDatabase\<rparr>,
            w\<lparr>cores := (cores w)(p := CoreTypeDatabase)\<rparr>))"

definition getType :: "database \<Rightarrow> core_type" where
  "getType db = database_type db"

text \<open>
  Modelled from the spec: \<^verbatim>\<open>Database::exec(statement, error)\<close> is absent. Section 6,
  "Checkpoint execution": it runs the statement on the database and reports success or
  failure plus an error detail.
\<close>

definition database_exec :: "database \<Rightarrow> statement_pragma \<Rightarrow> world \<Rightarrow> bool \<times> error \<times> world" where
  "database_exec db s w =
     (let e = exec_error w (issued w) (database_path db)
      in (e = ErrorOK, e, w\<lparr>issued := issued w @ [(database_path db, s)]\<rparr>))"

text \<open>
  Lines 232-242: the callback given to \<^verbatim>\<open>waitUntilExpired\<close>. It returns nothing; the
  flag returned by \<^verbatim>\<open>exec\<close> and the local \<^verbatim>\<open>innerError\<close> are dropped.
\<close>

definition attemptCheckpoint :: "string \<Rightarrow> world \<Rightarrow> world" where
  "attemptCheckpoint p w =
     (case Database p True w of
        (database, w1) \<Rightarrow>
          if getType database \<noteq> CoreTypeNone then
            (case database_exec database (Pragma WalCheckpoint) w1 of
               (ok, innerError, w2) \<Rightarrow> w2)
          else w1)"

text \<open>
  The function-local statics of the commit hook (lines 223, 227, 245): the queue, not
  constructed before the first call; whether the thread has been constructed, which
  starts it; whether \<^verbatim>\<open>call_once\<close> has run, which detaches it.
\<close>

record statics =
  s_timedQueue :: "string timed_queue option"
  s_checkpointThread :: bool
  s_flag :: bool


text \<open>Line 223: the static queue, constructed with delay 2 by the first call.\<close>

definition the_timedQueue :: "statics \<Rightarrow> string timed_queue" where
  "the_timedQueue st = (case s_timedQueue st of None \<Rightarrow> TimedQueue 2 | Some q \<Rightarrow> q)"

text \<open>
  Lines 222-247: the hook registered by \<^verbatim>\<open>registerCommittedHook\<close>. \<open>pages\<close> is a C
  \<^verbatim>\<open>int\<close>, compared as a signed number; \<open>now\<close> is the clock's reading that
  \<^verbatim>\<open>reQueue\<close> takes.
\<close>

definition committedHook :: "time \<Rightarrow> handle \<Rightarrow> 32 word \<Rightarrow> statics \<Rightarrow> statics" where
  "committedHook now handle pages st =
     (let q0 = the_timedQueue st;
          q1 = (if 1000 <s pages then reQueue now (path handle) q0 else q0)
      in \<lparr>s_timedQueue = Some q1, s_checkpointThread = True, s_flag = True\<rparr>)"

text \<open>
  Lines 229-243: one turn of the thread's \<^verbatim>\<open>while (true)\<close>, looked at at time \<open>now\<close>:
  \<open>None\<close> while \<^verbatim>\<open>waitUntilExpired\<close> is blocked.
\<close>

definition checkpointThread_turn ::
  "time \<Rightarrow> string timed_queue \<Rightarrow> world \<Rightarrow> (string timed_queue \<times> world) option" where
  "checkpointThread_turn now q w = waitUntilExpired now attemptCheckpoint q w"

text \<open>
  Lines 227-244: the thread's \<^verbatim>\<open>while (true)\<close>, followed until the time \<open>until\<close>
  while no producer touches the queue. A turn is taken at the deadline of the earliest
  entry, the time at which the blocked \<^verbatim>\<open>waitUntilExpired\<close> returns; the callback is
  taken to return at once (how long a checkpoint runs is not modelled). The loop has no
  exit: it goes on to the next turn whatever the callback met. The result is the queue
  and the world at \<open>until\<close>, and for every turn that ran, its time and the statements
  the callback executed in it.
\<close>

function checkpointThread ::
  "time \<Rightarrow> string timed_queue \<Rightarrow> world \<Rightarrow>
     string timed_queue \<times> world \<times> (time \<times> (string \<times> statement_pragma) list) list" where
  "checkpointThread until q w =
     (case earliest (entries q) of
        None \<Rightarrow> (q, w, [])
      | Some (key, expiry) \<Rightarrow>
          if expiry \<le> until then
            (case checkpointThread_turn expiry q w of
               None \<Rightarrow> (q, w, [])
             | Some (q', w') \<Rightarrow>
                 (case checkpointThread until q' w' of
                    (q'', w'', turns) \<Rightarrow>
                      (q'', w'', (expiry, drop (length (issued w)) (issued w')) # turns)))
          else (q, w, []))"
  by pat_completeness auto
termination
proof (relation "measure (\<lambda>(until, q, w). length (entries q))")
  show "wf (measure (\<lambda>(until, q, w). length (entries q)))"
    by simp
next
  fix until :: time and q :: "string timed_queue" and w :: world
    and x key expiry y q' w'
  assume e: "earliest (entries q) = Some x" "(key, expiry) = x"
    and t: "checkpointThread_turn expiry q w = Some y" "(q', w') = y"
  have mem: "z \<in> set xs" if "earliest xs = Some z" for xs :: "(string \<times> time) list" and z
    using that by (induction xs arbitrary: z) (auto split: option.splits if_splits)
  from e have x: "(key, expiry) \<in> set (entries q)"
    using mem [of "entries q" x] by simp
  from e t have "entries q' = remove1 (key, expiry) (entries q)"
    by (auto simp: checkpointThread_turn_def waitUntilExpired_def popExpired_def
        split: option.splits prod.splits if_splits)
  moreover from x have "0 < length (entries q)"
    by (cases "entries q") simp_all
  ultimately have "length (entries q') < length (entries q)"
    using x by (simp add: length_remove1)
  then show "((until, q', w'), (until, q, w)) \<in> measure (\<lambda>(until, q, w). length (entries q))"
    by simp
qed

subsection \<open>Auxiliary notions and sample data\<close>

text \<open>
  The text a read of a pragma yields on a handle: the prepare, the step and the check of
  its status as the source writes them, \<open>None\<close> when the prepare or the step fails.
\<close>

definition read_text :: "statement_pragma \<Rightarrow> handle \<Rightarrow> string option" where
  "read_text s h =
     (case prepare s h of
        (None, h1) \<Rightarrow> None
      | (Some handleStatement, h1) \<Rightarrow>
          (let h2 = step handleStatement h1
           in if isOK handleStatement h2 then Some (getValue_Text handleStatement h2)
              else None))"

text \<open>A handle on which nothing fails, whose journal mode reads as the given text.\<close>

definition example_handle :: "bool \<Rightarrow> string \<Rightarrow> handle" where
  "example_handle ro jm =
     \<lparr>path = ''/data/a.db'', readonly = ro,
      prepare_fails = (\<lambda>cs s. False), step_fails = (\<lambda>cs s. False),
      exec_fails = (\<lambda>cs s. False),
      column_text = (\<lambda>cs s. if s = Pragma JournalMode then jm else ''normal''),
      handle_error = (\<lambda>cs. ErrorCode 1), statement_error = (\<lambda>cs. ErrorCode 2),
      calls = []\<rparr>"

text \<open>
  A world in which the listed databases exist and every checkpoint reports the given
  error (\<open>ErrorOK\<close> for success).
\<close>

definition example_world :: "string list \<Rightarrow> error \<Rightarrow> world" where
  "example_world existing e =
     \<lparr>cores = (\<lambda>p. if p \<in> set existing then CoreTypeDatabase else CoreTypeNone),
      exec_error = (\<lambda>done p. e), issued = []\<rparr>"

text \<open>Section 8, "Ordering": two keys requeued at 0 and at 0.5, and three looks.\<close>

definition example_ops :: "string op list" where
  "example_ops =
     [ReQueue 0 ''a.db'', ReQueue (1 / 2) ''b.db'', WaitUntilExpired 1, WaitUntilExpired 2,
      WaitUntilExpired (5 / 2)]"

text \<open>The statics once the first call of the hook has run.\<close>

definition example_statics :: statics where
  "example_statics =
     \<lparr>s_timedQueue = Some (TimedQueue 2), s_checkpointThread = True, s_flag = True\<rparr>"

text \<open>The statements the callback executes for a path: the checkpoint, if its database exists.\<close>

definition checkpoint_of :: "world \<Rightarrow> string \<Rightarrow> (string \<times> statement_pragma) list" where
  "checkpoint_of w p = (if cores w p = CoreTypeNone then [] else [(p, Pragma WalCheckpoint)])"

text \<open>A queue with three pending keys.\<close>

definition example_queue :: "string timed_queue" where
  "example_queue = \<lparr>delay = 2, entries = [(''a.db'', 2), (''b.db'', 5 / 2), (''c.db'', 4)]\<rparr>"

section \<open>The basic configuration on a read-only handle\<close>

lemma executed_append: "executed (xs @ ys) = executed xs @ executed ys"
  by (induction xs rule: executed.induct) simp_all

text \<open>
  On strings without NUL, which is what \<open>c_str\<close> yields, \<open>strcasecmp\<close> is 0 exactly
  when the two strings agree after lowering every letter.
\<close>

lemma of_char_zero_iff: "(of_char c :: int) = 0 \<longleftrightarrow> c = CHR 0x00"
proof
  assume "(of_char c :: int) = 0"
  then have "(of_char c :: int) = of_char (CHR 0x00)" by simp
  then show "c = CHR 0x00" by (simp only: of_char_eq_iff)
next
  assume "c = CHR 0x00"
  then show "(of_char c :: int) = 0" by simp
qed

lemma tolower_c_zero: "tolower_c c = 0 \<longleftrightarrow> c = CHR 0x00"
proof (cases "65 \<le> (of_char c :: int) \<and> (of_char c :: int) \<le> 90")
  case True
  then have "tolower_c c \<noteq> 0" by (simp add: tolower_c_def)
  moreover from True have "(of_char c :: int) \<noteq> 0" by linarith
  then have "c \<noteq> CHR 0x00" by (simp only: of_char_zero_iff not_False_eq_True)
  ultimately show ?thesis by simp
next
  case False
  then have "tolower_c c = of_char c" by (simp add: tolower_c_def)
  then show ?thesis by (simp only: of_char_zero_iff)
qed

lemma strcasecmp_zero_iff:
  "CHR 0x00 \<notin> set a \<Longrightarrow> CHR 0x00 \<notin> set b \<Longrightarrow>
   strcasecmp a b = 0 \<longleftrightarrow> map tolower_c a = map tolower_c b"
proof (induction a b rule: strcasecmp.induct)
  case 1
  then show ?case by simp
next
  case (2 b bs)
  then have "b \<noteq> CHR 0x00" by auto
  then show ?case by (simp add: tolower_c_zero)
next
  case (3 a as)
  then have "a \<noteq> CHR 0x00" by auto
  then show ?case by (simp add: tolower_c_zero)
next
  case (4 a as b bs)
  then show ?case by simp
qed

text \<open>
  Claim C8. On a read-only handle whose journal mode is read successfully and compares
  equal to "WAL" under \<open>strcasecmp\<close> (that is, in any mix of upper and lower case), the
  basic configuration calls \<^verbatim>\<open>Error::Abort\<close> with the message that read-only WAL
  databases cannot be opened, and returns false. The caller's error is left as it was,
  and no statement is executed on the handle.
\<close>

theorem basic_readonly_WAL_aborts:
  assumes "isReadonly h"
    and "read_text s_getJournalMode h = Some journalMode"
    and "strcasecmp (c_str journalMode) ''WAL'' = 0"
  shows "returned (basic h error) = False
     \<and> aborted (basic h error) = [''It is not possible to open read-only WAL databases.'']
     \<and> error_out (basic h error) = error
     \<and> executed (calls (handle_out (basic h error))) = executed (calls h)"
  using assms
  by (auto simp: basic_def basic_readonly_def read_text_def Let_def prepare_def step_def
      finalize_def executed_append split: prod.splits option.splits if_splits)

theorem basic_readonly_WAL_aborts_witness:
  "isReadonly (example_handle True ''wal'')
   \<and> read_text s_getJournalMode (example_handle True ''wal'') = Some ''wal''
   \<and> strcasecmp (c_str ''wal'') ''WAL'' = 0
   \<and> returned (basic (example_handle True ''wal'') ErrorOK) = False
   \<and> aborted (basic (example_handle True ''wal'') ErrorOK)
       = [''It is not possible to open read-only WAL databases.'']"
proof -
  have a: "isReadonly (example_handle True ''wal'')"
    by (simp add: isReadonly_def example_handle_def)
  have b: "read_text s_getJournalMode (example_handle True ''wal'') = Some ''wal''"
    by (simp add: read_text_def example_handle_def prepare_def step_def isOK_def
        getValue_Text_def s_getJournalMode_def)
  have c: "strcasecmp (c_str ''wal'') ''WAL'' = 0"
    by (simp add: c_str_def tolower_c_def)
  show ?thesis
    using a b c basic_readonly_WAL_aborts [OF a b c, of ErrorOK] by simp
qed

text \<open>
  Claim C10. On a read-only handle the basic configuration executes no statement at all,
  whatever happens. When the journal mode is read successfully and is not "WAL", it
  returns true, and all it has done to the handle is the prepare, the step and the
  finalize of the journal-mode query: none of the writes of the locking mode, the
  synchronous flag, the journal mode or fullfsync is issued. The caller's error is left
  as it was and nothing is aborted.
\<close>

theorem basic_readonly_leaves_settings:
  assumes "isReadonly h"
  shows "executed (calls (handle_out (basic h error))) = executed (calls h)
     \<and> (\<forall>journalMode. read_text s_getJournalMode h = Some journalMode
            \<and> strcasecmp (c_str journalMode) ''WAL'' \<noteq> 0 \<longrightarrow>
          returned (basic h error) = True
        \<and> handle_out (basic h error) =
            h\<lparr>calls := calls h @ [Prepare s_getJournalMode, Step s_getJournalMode,
                                  Finalize s_getJournalMode]\<rparr>
        \<and> error_out (basic h error) = error
        \<and> aborted (basic h error) = [])"
  using assms
  by (auto simp: basic_def basic_readonly_def read_text_def Let_def prepare_def step_def
      finalize_def executed_append split: prod.splits option.splits if_splits)

theorem basic_readonly_leaves_settings_witness:
  "isReadonly (example_handle True ''delete'')
   \<and> read_text s_getJournalMode (example_handle True ''delete'') = Some ''delete''
   \<and> strcasecmp (c_str ''delete'') ''WAL'' \<noteq> 0
   \<and> returned (basic (example_handle True ''delete'') (ErrorCode 7)) = True
   \<and> executed (calls (handle_out (basic (example_handle True ''delete'') (ErrorCode 7)))) = []"
proof -
  have a: "isReadonly (example_handle True ''delete'')"
    by (simp add: isReadonly_def example_handle_def)
  have b: "read_text s_getJournalMode (example_handle True ''delete'') = Some ''delete''"
    by (simp add: read_text_def example_handle_def prepare_def step_def isOK_def
        getValue_Text_def s_getJournalMode_def)
  have c: "strcasecmp (c_str ''delete'') ''WAL'' \<noteq> 0"
    by (simp add: c_str_def tolower_c_def)
  have e: "executed (calls (example_handle True ''delete'')) = []"
    by (simp add: example_handle_def)
  note t = basic_readonly_leaves_settings [OF a, of "ErrorCode 7"]
  from t have x:
    "executed (calls (handle_out (basic (example_handle True ''delete'') (ErrorCode 7))))
      = executed (calls (example_handle True ''delete''))"
    by (rule conjunct1)
  from t b c have r: "returned (basic (example_handle True ''delete'') (ErrorCode 7)) = True"
    by blast
  show ?thesis
    using a b c e x r by simp
qed

section \<open>The timed queue: membership, expiry and order\<close>

subsection \<open>The earliest entry, requeueing and popping\<close>

lemma earliest_None: "earliest xs = None \<longleftrightarrow> xs = []"
  by (induction xs) (auto split: option.splits)

lemma earliest_Some:
  "earliest xs = Some x \<Longrightarrow> x \<in> set xs \<and> (\<forall>y\<in>set xs. snd x \<le> snd y)"
proof (induction xs arbitrary: x)
  case Nil
  then show ?case by simp
next
  case (Cons a xs)
  show ?case
  proof (cases "earliest xs")
    case None
    then have "xs = []" by (simp add: earliest_None)
    with Cons.prems show ?thesis by simp
  next
    case (Some y)
    from Cons.IH [OF Some] have y: "y \<in> set xs" "\<forall>z\<in>set xs. snd y \<le> snd z" by auto
    show ?thesis
    proof (cases "snd a \<le> snd y")
      case True
      with Some Cons.prems have "x = a" by simp
      with True y show ?thesis by fastforce
    next
      case False
      with Some Cons.prems have "x = y" by simp
      with False y show ?thesis by fastforce
    qed
  qed
qed

lemma distinct_map_remove1:
  "distinct (map f xs) \<Longrightarrow> distinct (map f (remove1 x xs))"
proof (induction xs)
  case Nil
  then show ?case by simp
next
  case (Cons a xs)
  have "set (remove1 x xs) \<subseteq> set xs" by (rule set_remove1_subset)
  with Cons show ?case by auto
qed

lemma key_gone_remove1:
  "distinct (map fst xs) \<Longrightarrow> (k, e) \<in> set xs \<Longrightarrow> k \<notin> fst ` set (remove1 (k, e) xs)"
proof (induction xs)
  case Nil
  then show ?case by simp
next
  case (Cons a xs)
  show ?case
  proof (cases "a = (k, e)")
    case True
    with Cons.prems show ?thesis by auto
  next
    case False
    with Cons.prems have "(k, e) \<in> set xs" "distinct (map fst xs)" "fst a \<noteq> k"
      by (auto simp: image_iff)
    with Cons.IH False show ?thesis by auto
  qed
qed

lemma reQueue_delay [simp]: "delay (reQueue now key q) = delay q"
  by (simp add: reQueue_def)

lemma reQueue_keys: "fst ` set (entries (reQueue now key q)) = insert key (fst ` set (entries q))"
  by (force simp: reQueue_def image_iff split: prod.splits if_splits)

lemma map_fst_reset:
  "map fst (map (\<lambda>(k, e). if k = key then (k, v) else (k, e)) xs) = map fst xs"
  by (induction xs) (auto split: prod.splits)

lemma reQueue_distinct:
  assumes "distinct (map fst (entries q))"
  shows "distinct (map fst (entries (reQueue now key q)))"
proof (cases "key \<in> fst ` set (entries q)")
  case True
  then have "entries (reQueue now key q) =
      map (\<lambda>(k, e). if k = key then (k, now + delay q) else (k, e)) (entries q)"
    by (simp add: reQueue_def)
  then have "map fst (entries (reQueue now key q)) = map fst (entries q)"
    by (simp only: map_fst_reset)
  with assms show ?thesis by simp
next
  case False
  with assms show ?thesis
    by (simp add: reQueue_def)
qed

lemma reQueue_entry:
  "(k, e) \<in> set (entries (reQueue now key q)) \<Longrightarrow>
     (k = key \<and> e = now + delay q) \<or> (k \<noteq> key \<and> (k, e) \<in> set (entries q))"
  by (cases "key \<in> fst ` set (entries q)") (auto simp: reQueue_def image_iff split: if_splits)

lemma reQueue_length:
  "key \<in> fst ` set (entries q) \<Longrightarrow> length (entries (reQueue now key q)) = length (entries q)"
  by (simp add: reQueue_def)

lemma popExpired_Some:
  assumes "popExpired now q = Some ((k, e), q')"
  shows "(k, e) \<in> set (entries q)" and "e \<le> now" and "\<forall>y\<in>set (entries q). e \<le> snd y"
    and "q' = q\<lparr>entries := remove1 (k, e) (entries q)\<rparr>"
  using assms earliest_Some [of "entries q" "(k, e)"]
  by (auto simp: popExpired_def split: option.splits prod.splits if_splits)

lemma run_append: "run cb (xs @ ys) s = run cb ys (run cb xs s)"
  by (induction xs arbitrary: s) simp_all

lemma last_requeue_snoc_ReQueue:
  "last_requeue key (xs @ [ReQueue t k]) = (if k = key then Some t else last_requeue key xs)"
  by (induction xs rule: last_requeue.induct) (auto split: option.splits)

lemma last_requeue_snoc_Wait:
  "last_requeue key (xs @ [WaitUntilExpired t]) = last_requeue key xs"
  by (induction xs rule: last_requeue.induct) (auto split: option.splits)

subsection \<open>Histories\<close>

text \<open>
  A look of the consumer in a history is one call of \<open>waitUntilExpired\<close>, together
  with the note of what was delivered.
\<close>

lemma apply_op_waitUntilExpired:
  "apply_op cb (WaitUntilExpired t) s =
     (case waitUntilExpired t cb (queue s) (world s) of
        None \<Rightarrow> s
      | Some (q', w') \<Rightarrow>
          s\<lparr>queue := q', world := w',
            delivered := delivered s @
              (case popExpired t (queue s) of None \<Rightarrow> [] | Some ((k, e), q) \<Rightarrow> [(k, e, t)])\<rparr>)"
  by (simp add: waitUntilExpired_def split: option.splits prod.splits)

lemma run_snoc: "run cb (xs @ [x]) s = apply_op cb x (run cb xs s)"
  by (simp add: run_append)

lemma popExpired_delay: "popExpired now q = Some (x, q') \<Longrightarrow> delay q' = delay q"
  by (cases x) (auto dest: popExpired_Some(4))

lemma popExpired_subset:
  "popExpired now q = Some (x, q') \<Longrightarrow> set (entries q') \<subseteq> set (entries q)"
  using set_remove1_subset [of x "entries q"]
  by (cases x) (auto dest!: popExpired_Some(4))

lemma popExpired_distinct:
  "popExpired now q = Some (x, q') \<Longrightarrow> distinct (map fst (entries q)) \<Longrightarrow>
   distinct (map fst (entries q'))"
  by (cases x) (auto dest!: popExpired_Some(4) simp: distinct_map_remove1)

lemma apply_op_delay: "delay (queue (apply_op cb x s)) = delay (queue s)"
  by (cases x) (auto split: option.splits dest: popExpired_delay)

lemma apply_op_distinct:
  "distinct (map fst (entries (queue s))) \<Longrightarrow>
   distinct (map fst (entries (queue (apply_op cb x s))))"
  by (cases x) (auto split: option.splits dest: popExpired_distinct simp: reQueue_distinct)

lemma run_delay: "delay (queue (run cb xs s)) = delay (queue s)"
  by (induction xs arbitrary: s) (simp_all add: apply_op_delay)

lemma run_distinct:
  "distinct (map fst (entries (queue s))) \<Longrightarrow>
   distinct (map fst (entries (queue (run cb xs s))))"
  by (induction xs arbitrary: s) (simp_all add: apply_op_distinct)

lemma start_simps [simp]:
  "delay (queue (start d w)) = d" "entries (queue (start d w)) = []"
  "delivered (start d w) = []" "world (start d w) = w"
  by (simp_all add: start_def TimedQueue_def)

lemma run_expiry:
  "(k, e) \<in> set (entries (queue (run cb xs (start d w)))) \<Longrightarrow>
   map_option (\<lambda>t. t + d) (last_requeue k xs) = Some e"
proof (induction xs arbitrary: k e rule: rev_induct)
  case Nil
  then show ?case by simp
next
  case (snoc x xs)
  let ?s = "run cb xs (start d w)"
  have d: "delay (queue ?s) = d" by (simp add: run_delay)
  show ?case
  proof (cases x)
    case (ReQueue t key)
    with snoc.prems have "(k, e) \<in> set (entries (reQueue t key (queue ?s)))"
      by (simp add: run_snoc)
    then have "(k = key \<and> e = t + d) \<or> (k \<noteq> key \<and> (k, e) \<in> set (entries (queue ?s)))"
      using reQueue_entry [of k e t key "queue ?s"] d by simp
    then show ?thesis
      using snoc.IH [of k e] ReQueue by (auto simp: last_requeue_snoc_ReQueue)
  next
    case (WaitUntilExpired t)
    have "(k, e) \<in> set (entries (queue ?s))"
    proof (cases "popExpired t (queue ?s)")
      case None
      with snoc.prems WaitUntilExpired show ?thesis by (simp add: run_snoc)
    next
      case (Some r)
      obtain x' q' where r: "r = (x', q')" by (cases r)
      with Some snoc.prems WaitUntilExpired have "(k, e) \<in> set (entries q')"
        by (auto simp: run_snoc split: prod.splits)
      with popExpired_subset [of t "queue ?s" x' q'] Some r show ?thesis by auto
    qed
    then show ?thesis
      using snoc.IH [of k e] WaitUntilExpired by (simp add: last_requeue_snoc_Wait)
  qed
qed

text \<open>
  Claim C3. After any history of requeues and pops on a queue that started empty with
  delay \<open>d\<close>, no key has two entries; every pending key's expiry is the time of the last
  requeue of that key in the history plus \<open>d\<close>; and requeueing a key that is pending
  leaves the number of entries as it was, so the entry is replaced, not doubled.
\<close>

theorem reQueue_at_most_once:
  "distinct (map fst (entries (queue (run cb xs (start d w)))))
   \<and> (\<forall>(k, e) \<in> set (entries (queue (run cb xs (start d w)))).
        map_option (\<lambda>t. t + d) (last_requeue k xs) = Some e)
   \<and> (\<forall>key \<in> fst ` set (entries (queue (run cb xs (start d w)))).
        length (entries (reQueue now key (queue (run cb xs (start d w)))))
          = length (entries (queue (run cb xs (start d w)))))"
proof -
  have "distinct (map fst (entries (queue (run cb xs (start d w)))))"
    by (rule run_distinct) simp
  moreover have "\<forall>(k, e) \<in> set (entries (queue (run cb xs (start d w)))).
        map_option (\<lambda>t. t + d) (last_requeue k xs) = Some e"
    using run_expiry by fastforce
  moreover have "\<forall>key \<in> fst ` set (entries (queue (run cb xs (start d w)))).
        length (entries (reQueue now key (queue (run cb xs (start d w)))))
          = length (entries (queue (run cb xs (start d w))))"
    using reQueue_length by fastforce
  ultimately show ?thesis by blast
qed

theorem reQueue_at_most_once_witness:
  "entries (queue (run attemptCheckpoint
       [ReQueue 0 ''a.db'', ReQueue 1 ''a.db'', ReQueue 1 ''b.db'']
       (start 2 (example_world [] ErrorOK))))
     = [(''a.db'', 3), (''b.db'', 3)]
   \<and> last_requeue ''a.db'' [ReQueue 0 ''a.db'', ReQueue 1 ''a.db'', ReQueue 1 ''b.db''] = Some 1
   \<and> length (entries (reQueue 9 ''a.db'' (queue (run attemptCheckpoint
       [ReQueue 0 ''a.db'', ReQueue 1 ''a.db'', ReQueue 1 ''b.db'']
       (start 2 (example_world [] ErrorOK)))))) = 2"
proof -
  have e: "entries (queue (run attemptCheckpoint
       [ReQueue 0 ''a.db'', ReQueue 1 ''a.db'', ReQueue 1 ''b.db'']
       (start 2 (example_world [] ErrorOK))))
     = [(''a.db'', 3), (''b.db'', 3)]"
    by (simp add: start_def TimedQueue_def reQueue_def)
  show ?thesis
    using reQueue_at_most_once [of attemptCheckpoint
        "[ReQueue 0 ''a.db'', ReQueue 1 ''a.db'', ReQueue 1 ''b.db'']" 2
        "example_world [] ErrorOK" 9] e
    by simp
qed

subsection \<open>Order of delivery\<close>

lemma run_order:
  assumes "sorted (map op_time xs)" and "0 \<le> d"
  shows "sorted (map (\<lambda>(k, e, t). e) (delivered (run cb xs (start d w))))
     \<and> (\<forall>(k, e, t) \<in> set (delivered (run cb xs (start d w))).
          e \<le> t \<and> t \<in> op_time ` set xs
          \<and> (\<forall>(k', e') \<in> set (entries (queue (run cb xs (start d w)))). e \<le> e'))"
  using assms(1)
proof (induction xs rule: rev_induct)
  case Nil
  then show ?case by simp
next
  case (snoc x xs)
  let ?s = "run cb xs (start d w)"
  from snoc.prems have sorted_xs: "sorted (map op_time xs)"
    and later: "\<forall>y\<in>set xs. op_time y \<le> op_time x"
    by (auto simp: sorted_append)
  note IH = snoc.IH [OF sorted_xs]
  have dl: "delay (queue ?s) = d" by (simp add: run_delay)
  show ?case
  proof (cases x)
    case (ReQueue t key)
    have dq: "delivered (run cb (xs @ [x]) (start d w)) = delivered ?s"
      and q: "queue (run cb (xs @ [x]) (start d w)) = reQueue t key (queue ?s)"
      using ReQueue by (simp_all add: run_snoc)
    have "e \<le> e'" if "(k, e, t') \<in> set (delivered ?s)"
      and "(k', e') \<in> set (entries (reQueue t key (queue ?s)))" for k e t' k' e'
    proof -
      from IH that(1) have 1: "e \<le> t'" "t' \<in> op_time ` set xs"
        and 2: "\<forall>(k', e') \<in> set (entries (queue ?s)). e \<le> e'" by auto
      from 1 later ReQueue have "t' \<le> t" by auto
      with 1 assms(2) have "e \<le> t + d" by linarith
      with reQueue_entry [OF that(2)] 2 dl show ?thesis by auto
    qed
    with IH show ?thesis unfolding dq q by fastforce
  next
    case (WaitUntilExpired t)
    show ?thesis
    proof (cases "popExpired t (queue ?s)")
      case None
      with WaitUntilExpired have "run cb (xs @ [x]) (start d w) = ?s"
        by (simp add: run_snoc)
      with IH show ?thesis by fastforce
    next
      case (Some r)
      obtain k e q' where r: "r = ((k, e), q')" by (cases r) auto
      note pop = popExpired_Some [OF Some [unfolded r]]
      have dq: "delivered (run cb (xs @ [x]) (start d w)) = delivered ?s @ [(k, e, t)]"
        and q: "queue (run cb (xs @ [x]) (start d w)) = q'"
        using WaitUntilExpired Some r by (simp_all add: run_snoc)
      have sub: "set (entries q') \<subseteq> set (entries (queue ?s))"
        using Some r by (auto dest: popExpired_subset)
      have before: "\<forall>(k0, e0, t0) \<in> set (delivered ?s). e0 \<le> e"
        using IH pop(1) by fastforce
      have "sorted (map (\<lambda>(k, e, t). e) (delivered ?s @ [(k, e, t)]))"
        using IH before by (fastforce simp: sorted_append)
      moreover have "\<forall>(k', e') \<in> set (entries q'). e \<le> e'"
        using pop(3) sub by fastforce
      moreover have "\<forall>(k0, e0, t0) \<in> set (delivered ?s).
          e0 \<le> t0 \<and> t0 \<in> op_time ` set (xs @ [x])
          \<and> (\<forall>(k', e') \<in> set (entries q'). e0 \<le> e')"
        using IH sub by fastforce
      moreover have "t \<in> op_time ` set (xs @ [x])"
        using WaitUntilExpired by simp
      ultimately show ?thesis
        unfolding dq q using pop(2) by auto
    qed
  qed
qed

text \<open>
  Claim C4. With a clock that does not run backwards and a delay that is not negative,
  after any history on a queue that started empty: the entries were handed to the
  consumer in non-decreasing order of expiry; each was handed over at a time not before
  its expiry; and whenever the consumer pops, the entry it gets has an expiry no later
  than any pending entry (so an entry with a strictly earlier expiry is never overtaken),
  that expiry has been reached, and it is the time of the key's last requeue plus the
  delay.
\<close>

theorem delivered_in_expiry_order:
  assumes "sorted (map op_time xs)" and "0 \<le> d"
  shows "sorted (map (\<lambda>(k, e, t). e) (delivered (run cb xs (start d w))))
     \<and> (\<forall>(k, e, t) \<in> set (delivered (run cb xs (start d w))). e \<le> t)
     \<and> (\<forall>now k e q'.
          popExpired now (queue (run cb xs (start d w))) = Some ((k, e), q') \<longrightarrow>
            e \<le> now
          \<and> map_option (\<lambda>t. t + d) (last_requeue k xs) = Some e
          \<and> (\<forall>(k', e') \<in> set (entries (queue (run cb xs (start d w)))). e \<le> e'))"
proof -
  let ?s = "run cb xs (start d w)"
  note order = run_order [OF assms, of cb w]
  have 1: "sorted (map (\<lambda>(k, e, t). e) (delivered ?s))"
    using order by blast
  have 2: "\<forall>(k, e, t) \<in> set (delivered ?s). e \<le> t"
    using order by fastforce
  have 3: "e \<le> now \<and> map_option (\<lambda>t. t + d) (last_requeue k xs) = Some e
          \<and> (\<forall>(k', e') \<in> set (entries (queue ?s)). e \<le> e')"
    if "popExpired now (queue ?s) = Some ((k, e), q')" for now k e q'
    using popExpired_Some [OF that] run_expiry [of k e cb xs d w] by fastforce
  from 1 2 3 show ?thesis by blast
qed

theorem delivered_in_expiry_order_witness:
  "sorted (map op_time example_ops) \<and> (0::time) \<le> 2
   \<and> delivered (run attemptCheckpoint example_ops (start 2 (example_world [] ErrorOK)))
       = [(''a.db'', 2, 2), (''b.db'', 5 / 2, 5 / 2)]
   \<and> sorted (map (\<lambda>(k, e, t). e)
        (delivered (run attemptCheckpoint example_ops (start 2 (example_world [] ErrorOK)))))
   \<and> popExpired 3 (queue (run attemptCheckpoint (take 2 example_ops)
          (start 2 (example_world [] ErrorOK))))
       = Some ((''a.db'', 2), \<lparr>delay = 2, entries = [(''b.db'', 5 / 2)]\<rparr>)
   \<and> last_requeue ''a.db'' (take 2 example_ops) = Some 0"
proof -
  have s: "sorted (map op_time example_ops)" by (simp add: example_ops_def)
  have s2: "sorted (map op_time (take 2 example_ops))" by (simp add: example_ops_def)
  have d: "(0::time) \<le> 2" by simp
  have e: "delivered (run attemptCheckpoint example_ops (start 2 (example_world [] ErrorOK)))
       = [(''a.db'', 2, 2), (''b.db'', 5 / 2, 5 / 2)]"
    by (simp add: example_ops_def start_def TimedQueue_def reQueue_def popExpired_def)
  have p: "popExpired 3 (queue (run attemptCheckpoint (take 2 example_ops)
          (start 2 (example_world [] ErrorOK))))
       = Some ((''a.db'', 2), \<lparr>delay = 2, entries = [(''b.db'', 5 / 2)]\<rparr>)"
    by (simp add: example_ops_def start_def TimedQueue_def reQueue_def popExpired_def)
  from delivered_in_expiry_order [OF s2 d, of attemptCheckpoint "example_world [] ErrorOK"] p
  have l: "map_option (\<lambda>t. t + 2) (last_requeue ''a.db'' (take 2 example_ops)) = Some 2"
    by blast
  have "last_requeue ''a.db'' (take 2 example_ops) = Some 0"
    using l by (simp add: example_ops_def)
  then show ?thesis
    using s d e p delivered_in_expiry_order [OF s d, of attemptCheckpoint "example_world [] ErrorOK"]
    by simp
qed

subsection \<open>A popped key fires once\<close>

lemma last_requeue_None_Cons:
  "last_requeue key (x # ys) = None \<Longrightarrow>
   last_requeue key ys = None \<and> (\<forall>t. x \<noteq> ReQueue t key)"
  by (cases x) (auto split: option.splits if_splits)

lemma apply_op_no_requeue:
  assumes "key \<notin> fst ` set (entries (queue s))" and "\<forall>t. x \<noteq> ReQueue t key"
  shows "key \<notin> fst ` set (entries (queue (apply_op cb x s)))
     \<and> (\<exists>zs. delivered (apply_op cb x s) = delivered s @ zs \<and> key \<notin> fst ` set zs)"
proof (cases x)
  case (ReQueue t k)
  with assms show ?thesis by (simp add: reQueue_keys)
next
  case (WaitUntilExpired t)
  show ?thesis
  proof (cases "popExpired t (queue s)")
    case None
    with WaitUntilExpired assms show ?thesis by simp
  next
    case (Some r)
    obtain k e q' where r: "r = ((k, e), q')" by (cases r) auto
    note pop = popExpired_Some [OF Some [unfolded r]]
    from pop(1) assms(1) have "k \<noteq> key" by force
    moreover have "key \<notin> fst ` set (entries q')"
      using popExpired_subset [OF Some [unfolded r]] assms(1) by force
    ultimately show ?thesis using WaitUntilExpired Some r by simp
  qed
qed

lemma run_no_requeue:
  "key \<notin> fst ` set (entries (queue s)) \<Longrightarrow> last_requeue key ys = None \<Longrightarrow>
   key \<notin> fst ` set (entries (queue (run cb ys s)))
   \<and> (\<exists>zs. delivered (run cb ys s) = delivered s @ zs \<and> key \<notin> fst ` set zs)"
proof (induction ys arbitrary: s)
  case Nil
  then show ?case by simp
next
  case (Cons x ys)
  from last_requeue_None_Cons [OF Cons.prems(2)]
  have none: "last_requeue key ys = None" and x: "\<forall>t. x \<noteq> ReQueue t key" by auto
  from apply_op_no_requeue [OF Cons.prems(1) x, of cb]
  obtain zs where a: "key \<notin> fst ` set (entries (queue (apply_op cb x s)))"
    and b: "delivered (apply_op cb x s) = delivered s @ zs" "key \<notin> fst ` set zs" by blast
  from Cons.IH [OF a none]
  obtain zs' where c: "key \<notin> fst ` set (entries (queue (run cb ys (apply_op cb x s))))"
    and d: "delivered (run cb ys (apply_op cb x s)) = delivered (apply_op cb x s) @ zs'"
      "key \<notin> fst ` set zs'" by blast
  from b d have "delivered (run cb (x # ys) s) = delivered s @ (zs @ zs')"
    and "key \<notin> fst ` set (zs @ zs')" by auto
  with c show ?case by (metis run.simps(2))
qed

text \<open>
  Claim C5. When the consumer pops a key (any callback, succeeding or failing, is then
  run on it), the key is noted once in the list of deliveries and is absent from the
  queue; and in any continuation of the history in which the key is not requeued, it stays
  absent and is never delivered again. The callback works on its own state and has no
  way to put the key back, so there is no retry.
\<close>

theorem popped_key_fires_once:
  assumes "popExpired now (queue (run cb xs (start d w))) = Some ((key, expiry), q')"
    and "last_requeue key ys = None"
  shows "delivered (run cb (xs @ [WaitUntilExpired now]) (start d w))
           = delivered (run cb xs (start d w)) @ [(key, expiry, now)]
     \<and> key \<notin> fst ` set (entries (queue (run cb (xs @ [WaitUntilExpired now]) (start d w))))
     \<and> key \<notin> fst ` set (entries (queue (run cb (xs @ WaitUntilExpired now # ys) (start d w))))
     \<and> key \<notin> fst ` set (drop (length (delivered (run cb (xs @ [WaitUntilExpired now]) (start d w))))
                           (delivered (run cb (xs @ WaitUntilExpired now # ys) (start d w))))"
proof -
  let ?s = "run cb xs (start d w)"
  let ?s1 = "run cb (xs @ [WaitUntilExpired now]) (start d w)"
  note pop = popExpired_Some [OF assms(1)]
  have s1: "?s1 = \<lparr>queue = q', world = cb key (world ?s),
                  delivered = delivered ?s @ [(key, expiry, now)]\<rparr>"
    using assms(1) by (simp add: run_snoc)
  have "distinct (map fst (entries (queue ?s)))"
    by (rule run_distinct) simp
  then have gone: "key \<notin> fst ` set (entries (queue ?s1))"
    using key_gone_remove1 [OF _ pop(1)] pop(4) s1 by simp
  have split: "run cb (xs @ WaitUntilExpired now # ys) (start d w) = run cb ys ?s1"
    by (simp add: run_append)
  from run_no_requeue [OF gone assms(2), of cb]
  obtain zs where a: "key \<notin> fst ` set (entries (queue (run cb ys ?s1)))"
    and b: "delivered (run cb ys ?s1) = delivered ?s1 @ zs" "key \<notin> fst ` set zs" by blast
  from b have "drop (length (delivered ?s1)) (delivered (run cb ys ?s1)) = zs" by simp
  with a b gone s1 show ?thesis unfolding split by simp
qed

theorem popped_key_fires_once_witness:
  "popExpired 2 (queue (run attemptCheckpoint [ReQueue 0 ''a.db'']
         (start 2 (example_world [''a.db''] (ErrorCode 5)))))
     = Some ((''a.db'', 2), \<lparr>delay = 2, entries = []\<rparr>)
   \<and> last_requeue ''a.db'' [WaitUntilExpired 3, ReQueue 4 ''b.db'', WaitUntilExpired 7] = None
   \<and> delivered (run attemptCheckpoint
        ([ReQueue 0 ''a.db''] @ WaitUntilExpired 2
           # [WaitUntilExpired 3, ReQueue 4 ''b.db'', WaitUntilExpired 7])
        (start 2 (example_world [''a.db''] (ErrorCode 5))))
     = [(''a.db'', 2, 2), (''b.db'', 6, 7)]
   \<and> ''a.db'' \<notin> fst ` set (entries (queue (run attemptCheckpoint
        ([ReQueue 0 ''a.db''] @ WaitUntilExpired 2
           # [WaitUntilExpired 3, ReQueue 4 ''b.db'', WaitUntilExpired 7])
        (start 2 (example_world [''a.db''] (ErrorCode 5))))))"
proof -
  have p: "popExpired 2 (queue (run attemptCheckpoint [ReQueue 0 ''a.db'']
         (start 2 (example_world [''a.db''] (ErrorCode 5)))))
     = Some ((''a.db'', 2), \<lparr>delay = 2, entries = []\<rparr>)"
    by (simp add: start_def TimedQueue_def reQueue_def popExpired_def)
  have l: "last_requeue ''a.db'' [WaitUntilExpired 3, ReQueue 4 ''b.db'', WaitUntilExpired 7] = None"
    by simp
  have d: "delivered (run attemptCheckpoint
        ([ReQueue 0 ''a.db''] @ WaitUntilExpired 2
           # [WaitUntilExpired 3, ReQueue 4 ''b.db'', WaitUntilExpired 7])
        (start 2 (example_world [''a.db''] (ErrorCode 5))))
     = [(''a.db'', 2, 2), (''b.db'', 6, 7)]"
    by (simp add: start_def TimedQueue_def reQueue_def popExpired_def)
  show ?thesis
    using p l d popped_key_fires_once [OF p l] by simp
qed

subsection \<open>Two requeues of one key\<close>





section \<open>The commit hook and the checkpoint thread\<close>

text \<open>
  Claim C2. The hook leaves as the queue the old queue with the handle's path requeued
  when the page count (read as a signed number) is greater than 1000, and the old queue
  itself otherwise: 1000 pages do not requeue, 1001 do. The construction of the queue
  and of the detached thread is done by whichever call comes first, whatever its page
  count; once that has happened, a call with at most 1000 pages changes nothing at all.
\<close>

theorem committedHook_threshold:
  "s_timedQueue (committedHook now h pages st) =
     Some (if 1000 < sint pages then reQueue now (path h) (the_timedQueue st)
           else the_timedQueue st)
   \<and> s_timedQueue (committedHook now h 1000 st) = Some (the_timedQueue st)
   \<and> s_timedQueue (committedHook now h 1001 st) = Some (reQueue now (path h) (the_timedQueue st))
   \<and> s_checkpointThread (committedHook now h pages st)
   \<and> s_flag (committedHook now h pages st)
   \<and> (s_timedQueue st \<noteq> None \<and> s_checkpointThread st \<and> s_flag st \<and> \<not> 1000 < sint pages \<longrightarrow>
        committedHook now h pages st = st)"
  by (auto simp: committedHook_def Let_def word_sless_alt the_timedQueue_def)

theorem committedHook_threshold_witness:
  "\<not> 1000 < sint (1000 :: 32 word)
   \<and> committedHook 5 (example_handle False ''wal'') 1000 example_statics = example_statics
   \<and> s_timedQueue (committedHook 5 (example_handle False ''wal'') 1001 example_statics)
       = Some \<lparr>delay = 2, entries = [(''/data/a.db'', 7)]\<rparr>"
  using committedHook_threshold [of 5 "example_handle False ''wal''" 1000 example_statics]
  by (simp add: example_statics_def the_timedQueue_def reQueue_def TimedQueue_def
      example_handle_def)

subsection \<open>The callback\<close>

lemma attemptCheckpoint_effect:
  "attemptCheckpoint p w =
     w\<lparr>issued := issued w @ (if cores w p = CoreTypeNone then [] else [(p, Pragma WalCheckpoint)])\<rparr>"
  by (simp add: attemptCheckpoint_def Database_def database_exec_def getType_def Let_def)

text \<open>
  Claim C7. The callback looks the path up with the existing-only flag. When the lookup
  yields no database, the callback changes nothing: no statement is executed and nothing
  is reported. The one statement it ever executes is the WAL checkpoint on the path, and
  it executes it exactly when a database was found; it creates no database.
\<close>

theorem attemptCheckpoint_skips_missing:
  "(cores w p = CoreTypeNone \<longrightarrow> attemptCheckpoint p w = w)
   \<and> issued (attemptCheckpoint p w) =
       issued w @ (if cores w p = CoreTypeNone then [] else [(p, Pragma WalCheckpoint)])
   \<and> cores (attemptCheckpoint p w) = cores w"
  by (simp add: attemptCheckpoint_effect)

theorem attemptCheckpoint_skips_missing_witness:
  "cores (example_world [''a.db''] ErrorOK) ''gone.db'' = CoreTypeNone
   \<and> attemptCheckpoint ''gone.db'' (example_world [''a.db''] ErrorOK) = example_world [''a.db''] ErrorOK
   \<and> issued (attemptCheckpoint ''a.db'' (example_world [''a.db''] ErrorOK))
       = [(''a.db'', Pragma WalCheckpoint)]"
  using attemptCheckpoint_skips_missing [of "example_world [''a.db''] ErrorOK" "''gone.db''"]
    attemptCheckpoint_skips_missing [of "example_world [''a.db''] ErrorOK" "''a.db''"]
  by (simp add: example_world_def)

subsection \<open>Failing checkpoints\<close>

lemma checkpoint_of_attempt:
  "attemptCheckpoint p w = w\<lparr>issued := issued w @ checkpoint_of w p\<rparr>"
  by (simp add: attemptCheckpoint_def Database_def database_exec_def getType_def Let_def
      checkpoint_of_def)

lemma checkpointThread_turn_eq:
  "checkpointThread_turn now q w =
     (case popExpired now q of
        None \<Rightarrow> None
      | Some ((k, e), q1) \<Rightarrow> Some (q1, w\<lparr>issued := issued w @ checkpoint_of w k\<rparr>))"
  by (simp add: checkpointThread_turn_def waitUntilExpired_def checkpoint_of_attempt
      split: option.splits prod.splits)

lemma checkpointThread_turn_blocked:
  "checkpointThread_turn now q w = None \<longleftrightarrow>
     (case earliest (entries q) of None \<Rightarrow> True | Some (k, e) \<Rightarrow> now < e)"
  by (auto simp: checkpointThread_turn_eq popExpired_def split: option.splits prod.splits)

lemma filter_remove1_other:
  "\<not> P x \<Longrightarrow> filter P (remove1 x xs) = filter P xs"
  by (induction xs) auto

lemma set_of_image_filter:
  "mset ts = image_mset f (filter_mset P (mset xs)) \<Longrightarrow> set ts = f ` {x \<in> set xs. P x}"
proof -
  assume "mset ts = image_mset f (filter_mset P (mset xs))"
  then have "set_mset (mset ts) = set_mset (image_mset f (filter_mset P (mset xs)))"
    by (rule arg_cong)
  then show ?thesis by simp
qed

lemma checkpointThread_None:
  "earliest (entries q) = None \<Longrightarrow> checkpointThread until q w = (q, w, [])"
  by (subst checkpointThread.simps) simp

lemma checkpointThread_later:
  "earliest (entries q) = Some (k, e) \<Longrightarrow> \<not> e \<le> until \<Longrightarrow>
   checkpointThread until q w = (q, w, [])"
  by (subst checkpointThread.simps) simp

lemma checkpointThread_due:
  assumes "earliest (entries q) = Some (k, e)" and "e \<le> until"
  shows "checkpointThread until q w =
     (case checkpointThread until (q\<lparr>entries := remove1 (k, e) (entries q)\<rparr>)
             (w\<lparr>issued := issued w @ checkpoint_of w k\<rparr>) of
        (q'', w'', turns) \<Rightarrow> (q'', w'', (e, checkpoint_of w k) # turns))"
proof -
  have "popExpired e q = Some ((k, e), q\<lparr>entries := remove1 (k, e) (entries q)\<rparr>)"
    using assms(1) by (simp add: popExpired_def)
  then have "checkpointThread_turn e q w =
      Some (q\<lparr>entries := remove1 (k, e) (entries q)\<rparr>, w\<lparr>issued := issued w @ checkpoint_of w k\<rparr>)"
    by (simp add: checkpointThread_turn_eq)
  with assms show ?thesis
    by (subst checkpointThread.simps) simp
qed

lemma checkpointThread_result:
  "checkpointThread until q w = (q', w', turns) \<Longrightarrow>
     sorted (map fst turns)
   \<and> mset turns = image_mset (\<lambda>(k, e). (e, checkpoint_of w k))
                     (filter_mset (\<lambda>(k, e). e \<le> until) (mset (entries q)))
   \<and> entries q' = filter (\<lambda>(k, e). \<not> e \<le> until) (entries q)
   \<and> delay q' = delay q
   \<and> issued w' = issued w @ concat (map snd turns)
   \<and> cores w' = cores w \<and> exec_error w' = exec_error w"
proof (induction until q w arbitrary: q' w' turns rule: checkpointThread.induct)
  case (1 until q w)
  show ?case
  proof (cases "earliest (entries q)")
    case None
    then have "entries q = []" by (simp add: earliest_None)
    with None "1.prems" show ?thesis by (simp add: checkpointThread_None)
  next
    case (Some x)
    obtain k e where x: "x = (k, e)" by (cases x)
    note min = earliest_Some [OF Some [unfolded x]]
    show ?thesis
    proof (cases "e \<le> until")
      case False
      with min have late: "\<forall>y\<in>set (entries q). \<not> snd y \<le> until" by fastforce
      have "filter (\<lambda>(k, e). \<not> e \<le> until) (entries q) = entries q"
        using late by (intro filter_True) auto
      moreover have "filter_mset (\<lambda>(k, e). e \<le> until) (mset (entries q)) = {#}"
        using late by (auto simp: filter_mset_eq_conv)
      ultimately have "filter (\<lambda>(k, e). \<not> e \<le> until) (entries q) = entries q"
        and "filter_mset (\<lambda>(k, e). e \<le> until) (mset (entries q)) = {#}"
        by simp_all
      with Some x False "1.prems" show ?thesis by (simp add: checkpointThread_later)
    next
      case True
      let ?q1 = "q\<lparr>entries := remove1 (k, e) (entries q)\<rparr>"
      let ?w1 = "w\<lparr>issued := issued w @ checkpoint_of w k\<rparr>"
      obtain q2 w2 ts where rec: "checkpointThread until ?q1 ?w1 = (q2, w2, ts)"
        by (cases "checkpointThread until ?q1 ?w1") auto
      have pop: "popExpired e q = Some ((k, e), ?q1)"
        using Some x by (simp add: popExpired_def)
      have turn: "checkpointThread_turn e q w = Some (?q1, ?w1)"
        using pop by (simp add: checkpointThread_turn_eq)
      note IH = "1.IH" [OF Some x [symmetric] True turn refl rec]
      from "1.prems" rec checkpointThread_due [OF Some [unfolded x] True, of w]
      have res: "q' = q2" "w' = w2" "turns = (e, checkpoint_of w k) # ts" by simp_all
      have same: "checkpoint_of ?w1 = checkpoint_of w"
        by (simp add: checkpoint_of_def fun_eq_iff)
      have split: "mset (entries q) = add_mset (k, e) (mset (remove1 (k, e) (entries q)))"
        using min by simp
      have m: "mset ts = image_mset (\<lambda>(k, e). (e, checkpoint_of w k))
                     (filter_mset (\<lambda>(k, e). e \<le> until) (mset (remove1 (k, e) (entries q))))"
        using IH same by simp
      have "\<forall>t\<in>set ts. e \<le> fst t"
      proof
        fix t assume "t \<in> set ts"
        with set_of_image_filter [OF m] obtain y
          where y: "y \<in> set (remove1 (k, e) (entries q))" "t = (snd y, checkpoint_of w (fst y))"
          by (auto split: prod.splits)
        then have "y \<in> set (entries q)"
          using set_remove1_subset [of "(k, e)" "entries q"] by auto
        with y min show "e \<le> fst t" by fastforce
      qed
      then have 1: "sorted (map fst turns)" using IH res by simp
      have 2: "mset turns = image_mset (\<lambda>(k, e). (e, checkpoint_of w k))
                     (filter_mset (\<lambda>(k, e). e \<le> until) (mset (entries q)))"
        using m True res by (subst split) simp
      have 3: "entries q' = filter (\<lambda>(k, e). \<not> e \<le> until) (entries q)"
        using IH res True filter_remove1_other [of "\<lambda>(k, e). \<not> e \<le> until" "(k, e)" "entries q"]
        by simp
      have 4: "issued w' = issued w @ concat (map snd turns)"
        using IH res by simp
      have 5: "delay q' = delay q" "cores w' = cores w" "exec_error w' = exec_error w"
        using IH res by simp_all
      from 1 2 3 4 5 show ?thesis by blast
    qed
  qed
qed

text \<open>
  Claim C6. The callback returns nothing and the loop has no exit, so a failed lookup or
  checkpoint reaches no caller and ends no turn. Whatever errors the checkpoints report
  (the theorem holds in every world, those where every checkpoint fails among them),
  following the thread until a time \<open>until\<close> gives: one turn for every queued entry
  whose expiry is at or before \<open>until\<close>, taken at that expiry, in which the callback
  executes the WAL checkpoint on the key's database if it exists; the turns in order of
  time; the other entries left in the queue as they were; the executed statements, and
  nothing else, added to the world. A turn is blocked exactly while the earliest deadline
  lies ahead, never because an earlier checkpoint failed.
\<close>

theorem checkpoint_failure_isolated:
  assumes "checkpointThread until q w = (q', w', turns)"
  shows "sorted (map fst turns)
   \<and> mset turns =
       image_mset
         (\<lambda>(k, e). (e, if cores w k = CoreTypeNone then [] else [(k, Pragma WalCheckpoint)]))
         (filter_mset (\<lambda>(k, e). e \<le> until) (mset (entries q)))
   \<and> entries q' = filter (\<lambda>(k, e). \<not> e \<le> until) (entries q)
   \<and> issued w' = issued w @ concat (map snd turns)
   \<and> cores w' = cores w \<and> exec_error w' = exec_error w
   \<and> (\<forall>now. checkpointThread_turn now q w = None \<longleftrightarrow>
         (case earliest (entries q) of None \<Rightarrow> True | Some (k, e) \<Rightarrow> now < e))"
proof -
  have "checkpoint_of w = (\<lambda>k. if cores w k = CoreTypeNone then [] else [(k, Pragma WalCheckpoint)])"
    by (simp add: checkpoint_of_def fun_eq_iff)
  with checkpointThread_result [OF assms] checkpointThread_turn_blocked [of _ q w]
  show ?thesis by simp
qed

theorem checkpoint_failure_isolated_witness:
  "checkpointThread 3 example_queue (example_world [''a.db'', ''b.db''] (ErrorCode 5))
     = (\<lparr>delay = 2, entries = [(''c.db'', 4)]\<rparr>,
        (example_world [''a.db'', ''b.db''] (ErrorCode 5))
          \<lparr>issued := [(''a.db'', Pragma WalCheckpoint), (''b.db'', Pragma WalCheckpoint)]\<rparr>,
        [(2, [(''a.db'', Pragma WalCheckpoint)]), (5 / 2, [(''b.db'', Pragma WalCheckpoint)])])
   \<and> fst (database_exec \<lparr>database_path = ''a.db'', database_type = CoreTypeDatabase\<rparr>
          (Pragma WalCheckpoint) (example_world [''a.db'', ''b.db''] (ErrorCode 5))) = False
   \<and> sorted (map fst [(2 :: time, [(''a.db'', Pragma WalCheckpoint)]),
                       (5 / 2, [(''b.db'', Pragma WalCheckpoint)])])"
proof -
  have r: "checkpointThread 3 example_queue (example_world [''a.db'', ''b.db''] (ErrorCode 5))
     = (\<lparr>delay = 2, entries = [(''c.db'', 4)]\<rparr>,
        (example_world [''a.db'', ''b.db''] (ErrorCode 5))
          \<lparr>issued := [(''a.db'', Pragma WalCheckpoint), (''b.db'', Pragma WalCheckpoint)]\<rparr>,
        [(2, [(''a.db'', Pragma WalCheckpoint)]), (5 / 2, [(''b.db'', Pragma WalCheckpoint)])])"
    by (simp add: checkpointThread.simps example_queue_def example_world_def
        checkpointThread_turn_def waitUntilExpired_def popExpired_def attemptCheckpoint_def
        Database_def database_exec_def getType_def Let_def)
  have f: "fst (database_exec \<lparr>database_path = ''a.db'', database_type = CoreTypeDatabase\<rparr>
          (Pragma WalCheckpoint) (example_world [''a.db'', ''b.db''] (ErrorCode 5))) = False"
    by (simp add: database_exec_def example_world_def Let_def)
  from checkpoint_failure_isolated [OF r] r f show ?thesis by simp
qed

section \<open>Requeues of one key from many producers\<close>

lemma last_requeue_append:
  "last_requeue key (xs @ ys) =
     (case last_requeue key ys of Some t \<Rightarrow> Some t | None \<Rightarrow> last_requeue key xs)"
  by (induction xs rule: last_requeue.induct) (auto split: option.splits)

lemma requeues_keep_key:
  "key \<in> fst ` set (entries (queue s)) \<Longrightarrow>
   key \<in> fst ` set (entries (queue (run cb (map (\<lambda>(t, k). ReQueue t k) ps) s)))"
proof (induction ps arbitrary: s)
  case Nil
  then show ?case by simp
next
  case (Cons p ps)
  obtain t k where p: "p = (t, k)" by (cases p)
  have "key \<in> fst ` set (entries (queue (apply_op cb (ReQueue t k) s)))"
    using Cons.prems by (simp add: reQueue_keys)
  from Cons.IH [OF this] p show ?case by simp
qed

lemma requeued_key_pending:
  "last_requeue key (map (\<lambda>(t, k). ReQueue t k) ps) = Some t \<Longrightarrow>
   key \<in> fst ` set (entries (queue (run cb (map (\<lambda>(t, k). ReQueue t k) ps) s)))"
proof (induction ps arbitrary: s)
  case Nil
  then show ?case by simp
next
  case (Cons p ps)
  obtain t0 k0 where p: "p = (t0, k0)" by (cases p)
  show ?case
  proof (cases "last_requeue key (map (\<lambda>(t, k). ReQueue t k) ps)")
    case None
    with Cons.prems p have "k0 = key" by (simp split: if_splits)
    then have "key \<in> fst ` set (entries (queue (apply_op cb (ReQueue t0 k0) s)))"
      by (simp add: reQueue_keys)
    from requeues_keep_key [OF this] p show ?thesis by simp
  next
    case (Some t')
    with Cons.prems p have "t' = t" by simp
    with Some Cons.IH [of "apply_op cb (ReQueue t0 k0) s"] p show ?thesis by simp
  qed
qed

lemma filter_key_distinct:
  "distinct (map fst xs) \<Longrightarrow> (k, e) \<in> set xs \<Longrightarrow> filter (\<lambda>x. fst x = k) xs = [(k, e)]"
proof (induction xs)
  case Nil
  then show ?case by simp
next
  case (Cons a xs)
  show ?case
  proof (cases "a = (k, e)")
    case True
    with Cons.prems have "\<forall>x\<in>set xs. fst x \<noteq> k" by (auto simp: image_iff)
    then have "filter (\<lambda>x. fst x = k) xs = []" by (simp add: filter_empty_conv)
    with True show ?thesis by simp
  next
    case False
    with Cons.prems have "(k, e) \<in> set xs" "fst a \<noteq> k" by (auto simp: image_iff)
    with Cons show ?thesis by simp
  qed
qed

lemma requeues_one_key:
  "ts \<noteq> [] \<Longrightarrow>
   entries (queue (run cb (map (\<lambda>t. ReQueue t K) ts) (start d w))) = [(K, last ts + d)]"
proof (induction ts rule: rev_induct)
  case Nil
  then show ?case by simp
next
  case (snoc t us)
  show ?case
  proof (cases "us = []")
    case True
    then show ?thesis by (simp add: reQueue_def start_def TimedQueue_def)
  next
    case False
    from snoc.IH [OF False]
    have e: "entries (queue (run cb (map (\<lambda>t. ReQueue t K) us) (start d w))) = [(K, last us + d)]" .
    have d: "delay (queue (run cb (map (\<lambda>t. ReQueue t K) us) (start d w))) = d"
      by (simp add: run_delay)
    show ?thesis using e d by (simp add: run_append reQueue_def)
  qed
qed

lemma last_is_Max:
  fixes ts :: "time list"
  assumes "ts \<noteq> []" and "sorted_wrt (<) ts"
  shows "last ts = Max (set ts)"
proof -
  from assms(1) obtain us t where ts: "ts = us @ [t]" by (cases ts rule: rev_cases) auto
  with assms(2) have "\<forall>u\<in>set us. u < t" by (simp add: sorted_wrt_append)
  then have "Max (set ts) = t" unfolding ts by (intro Max_eqI) auto
  with ts show ?thesis by simp
qed

text \<open>
  Claim C9. The queue's lock lets the calls of \<open>reQueue\<close> take effect one at a time, each
  with its own reading of the clock. When producers requeue a key \<open>K\<close> at the times
  \<open>t\<^sub>1 < ... < t\<^sub>n\<close> on a new queue, the queue ends with the single entry of \<open>K\<close>, with
  expiry \<open>t\<^sub>n\<close> plus the delay, \<open>t\<^sub>n\<close> being the latest of the times. More generally,
  after any history, when producers requeue any keys in any order, the queue holds
  exactly one entry for every key \<open>K\<close> among them, and its expiry is the time of the
  requeue of \<open>K\<close> that took effect last, plus the delay. \<open>reQueue\<close> is a total function:
  every call yields a queue. How long a caller waits for the lock is not expressed here.
\<close>

theorem requeue_last_write_wins:
  assumes "ts \<noteq> []" and "sorted_wrt (<) ts"
  shows "entries (queue (run cb (map (\<lambda>t. ReQueue t K) ts) (start d w))) = [(K, last ts + d)]
   \<and> last ts = Max (set ts)
   \<and> (\<forall>t. last_requeue K (map (\<lambda>(t, k). ReQueue t k) ps) = Some t \<longrightarrow>
        filter (\<lambda>x. fst x = K)
          (entries (queue (run cb (xs @ map (\<lambda>(t, k). ReQueue t k) ps) (start d w))))
          = [(K, t + d)])"
proof -
  let ?ys = "map (\<lambda>(t, k). ReQueue t k) ps"
  let ?s = "run cb (xs @ ?ys) (start d w)"
  have 3: "filter (\<lambda>x. fst x = K) (entries (queue ?s)) = [(K, t + d)]"
    if l: "last_requeue K ?ys = Some t" for t
  proof -
    have "K \<in> fst ` set (entries (queue ?s))"
      using requeued_key_pending [OF l, of cb "run cb xs (start d w)"] by (simp add: run_append)
    then obtain e where e: "(K, e) \<in> set (entries (queue ?s))" by auto
    from run_expiry [OF e] l have "e = t + d" by (simp add: last_requeue_append)
    moreover have "distinct (map fst (entries (queue ?s)))"
      by (rule run_distinct) simp
    ultimately show ?thesis using filter_key_distinct e by fastforce
  qed
  from requeues_one_key [OF assms(1), of cb K d w] last_is_Max [OF assms] 3
  show ?thesis by simp
qed

theorem requeue_last_write_wins_witness:
  "[0, 1 / 2, 1 :: time] \<noteq> [] \<and> sorted_wrt (<) [0, 1 / 2, 1 :: time]
   \<and> entries (queue (run attemptCheckpoint (map (\<lambda>t. ReQueue t ''a.db'') [0, 1 / 2, 1])
        (start 2 (example_world [] ErrorOK)))) = [(''a.db'', 3)]
   \<and> last_requeue ''a.db'' (map (\<lambda>(t, k). ReQueue t k) [(3, ''a.db''), (3, ''b.db''), (4, ''a.db'')])
       = Some 4
   \<and> filter (\<lambda>x. fst x = ''a.db'')
        (entries (queue (run attemptCheckpoint
           ([ReQueue 0 ''b.db'', WaitUntilExpired 2]
              @ map (\<lambda>(t, k). ReQueue t k) [(3, ''a.db''), (3, ''b.db''), (4, ''a.db'')])
           (start 2 (example_world [] ErrorOK))))) = [(''a.db'', 6)]"
proof -
  have a: "[0, 1 / 2, 1 :: time] \<noteq> []" by simp
  have b: "sorted_wrt (<) [0, 1 / 2, 1 :: time]" by simp
  have l: "last_requeue ''a.db''
      (map (\<lambda>(t, k). ReQueue t k) [(3, ''a.db''), (3, ''b.db''), (4, ''a.db'')]) = Some 4"
    by simp
  from requeue_last_write_wins [OF a b, of attemptCheckpoint "''a.db''" 2 "example_world [] ErrorOK"
      "[(3, ''a.db''), (3, ''b.db''), (4, ''a.db'')]" "[ReQueue 0 ''b.db'', WaitUntilExpired 2]"] l
  show ?thesis by simp
qed

end
